theory Spec2Isabelle
  imports Main
begin

section \<open>The group list of UserGroups.tsx\<close>

text \<open>
  The component's \<open>value\<close> prop is \<open>Array<Array<User['pk']>>\<close>: an ordered list of
  groups, each an ordered list of user keys. A handler either calls \<open>onChange\<close> with a
  new group list (\<open>Some\<close>) or returns without calling it (\<open>None\<close>); in the latter
  case the group list held by the parent stays as it is.
\<close>

type_synonym pk = string
type_synonym groups = "pk list list"

subsection \<open>handleDeleteUser\<close>

text \<open>
  \<open>newGroups[i].filter((item, itemIndex) => itemIndex !== j)\<close>: keep the elements whose
  position is not \<open>j\<close>.
\<close>

definition filterIndexNot :: "nat \<Rightarrow> 'a list \<Rightarrow> 'a list" where
  "filterIndexNot j xs = map snd (filter (\<lambda>(itemIndex, item). itemIndex \<noteq> j) (enumerate 0 xs))"

text \<open>
  The inner loop \<open>for (let j = 0; j < users.length; j++) { k++; if (k === index) ... }\<close>.
  It either finds the position \<open>j\<close> whose counter equals \<open>index\<close> (\<open>Inl j\<close>) or runs
  to the end and hands the counter on (\<open>Inr k\<close>).
\<close>

function usersLoop :: "pk list \<Rightarrow> int \<Rightarrow> nat \<Rightarrow> int \<Rightarrow> nat + int" where
  "usersLoop users index j k =
     (if j < length users
      then (let k' = k + 1 in
            if k' = index then Inl j else usersLoop users index (j + 1) k')
      else Inr k)"
  by pat_completeness auto
termination
  by (relation "measure (\<lambda>(users, index, j, k). length users - j)") auto

declare usersLoop.simps [simp del]

text \<open>
  The outer loop \<open>for (let i = 0; i < value.length; i++) { k++; ... }\<close>. On a hit it
  replaces group \<open>i\<close> of the copy and calls \<open>onChange(newGroups.filter((group) => group.length))\<close>.
\<close>

function groupsLoop :: "groups \<Rightarrow> int \<Rightarrow> nat \<Rightarrow> int \<Rightarrow> groups option" where
  "groupsLoop value index i k =
     (if i < length value
      then (let k' = k + 1; users = value ! i in
            case usersLoop users index 0 k' of
              Inl j \<Rightarrow>
                (let newGroups = value[i := filterIndexNot j (value ! i)]
                 in Some (filter (\<lambda>group. length group \<noteq> 0) newGroups))
            | Inr k'' \<Rightarrow> groupsLoop value index (i + 1) k'')
      else None)"
  by pat_completeness auto
termination
  by (relation "measure (\<lambda>(value, index, i, k). length value - i)") auto

declare groupsLoop.simps [simp del]

definition handleDeleteUser :: "groups \<Rightarrow> int \<Rightarrow> groups option" where
  "handleDeleteUser value index = groupsLoop value index 0 (- 1)"

text \<open>
  The numbering the two loops give: every group takes one position (its separator) and
  every user one more. \<open>flatLength\<close> is the number of positions, \<open>flatIndex value i j\<close>
  the position of user \<open>j\<close> of group \<open>i\<close>.
\<close>

definition flatLength :: "groups \<Rightarrow> int" where
  "flatLength value = (\<Sum>users\<leftarrow>value. 1 + int (length users))"

definition flatIndex :: "groups \<Rightarrow> nat \<Rightarrow> nat \<Rightarrow> int" where
  "flatIndex value i j = flatLength (take i value) + 1 + int j"

subsection \<open>handleUserAdd\<close>

text \<open>
  \<open>if (!pk) return\<close>: a missing key (\<open>null\<close>, \<open>undefined\<close>) and the empty string are
  falsy. An empty array is truthy, so \<open>!lastGroup\<close> holds only when there is no group.
  \<open>lastGroup.push(pk)\<close> writes into the array that sits in \<open>newGroups\<close> (and, the
  copy being shallow, in \<open>value\<close>); the model gives what is passed to \<open>onChange\<close>.
\<close>

definition falsy :: "pk option \<Rightarrow> bool" where
  "falsy pk = (case pk of None \<Rightarrow> True | Some s \<Rightarrow> s = [])"

definition handleUserAdd :: "groups \<Rightarrow> pk option \<Rightarrow> groups option" where
  "handleUserAdd value pk =
     (if falsy pk then None
      else (let newGroups = value;
                newGroups = (if newGroups = [] then newGroups @ [[]] else newGroups);
                n = length newGroups - 1
            in Some (newGroups[n := (newGroups ! n) @ [the pk]])))"

subsection \<open>handleAddUserGroup\<close>

definition handleAddUserGroup :: "groups \<Rightarrow> groups" where
  "handleAddUserGroup value = value @ [[]]"

section \<open>The flat sequence behind the drag surface\<close>

text \<open>
  Modelled from the spec: the type \<open>Item\<close> of \<open>UserGroups.types\<close> is imported by
  \<open>UserGroups.tsx\<close> but is not among the sources. The spec's Flat Item is a tagged
  union of a member (its identifier and the index of its owning group) and a separator
  (the index of its group). \<open>UserGroups.tsx\<close> reads \<open>item.type === 'item'\<close> and
  \<open>item.data\<close> (the user key) of a member.
\<close>

datatype item = SeparatorItem nat | MemberItem pk nat

text \<open>
  Modelled from the spec: \<open>toPlainArray\<close> of \<open>UserGroups.helpers\<close> is not among the
  sources. Flattening visits the groups in order, every group's separator immediately
  before its members, and gives the empty sequence for the empty group list.
  \<open>UserGroups.tsx\<close> calls it with the group list alone (\<open>toPlainArray(value)\<close>), counts
  one position per group in \<open>handleDeleteUser\<close> and leaves it to \<open>SortableList\<close>
  whether a separator is shown, so the separators are there in both modes.
\<close>

fun toPlainFrom :: "nat \<Rightarrow> groups \<Rightarrow> item list" where
  "toPlainFrom groupIndex [] = []"
| "toPlainFrom groupIndex (users # rest) =
     SeparatorItem groupIndex # map (\<lambda>m. MemberItem m groupIndex) users
       @ toPlainFrom (Suc groupIndex) rest"

text \<open>
  Modelled from the spec: \<open>toPlainArray(value)\<close> is the flattening that numbers the
  groups from zero.
\<close>

definition toPlainArray :: "groups \<Rightarrow> item list" where
  "toPlainArray value = toPlainFrom 0 value"

text \<open>
  Modelled from the spec: \<open>fromPlainArray\<close> of \<open>UserGroups.helpers\<close> is not among the
  sources. Unflattening is the inverse transform: a separator opens a group (a separator
  followed by no member yields an empty group, which is left to the caller), a member
  goes to the last group opened. The second argument is what \<open>onSortEnd\<close> passes,
  \<open>newIndex > items.length\<close>: when it holds, the member in the last position of the
  sequence becomes a new trailing group containing only that member; otherwise it is
  appended to the last group. A member met before any separator opens a first group.
\<close>

fun fromPlainLoop :: "item list \<Rightarrow> bool \<Rightarrow> groups \<Rightarrow> groups" where
  "fromPlainLoop [] createNewGroup memo = memo"
| "fromPlainLoop (SeparatorItem groupIndex # rest) createNewGroup memo =
     fromPlainLoop rest createNewGroup (memo @ [[]])"
| "fromPlainLoop (MemberItem m groupIndex # rest) createNewGroup memo =
     fromPlainLoop rest createNewGroup
       (if memo = [] \<or> (createNewGroup \<and> rest = [])
        then memo @ [[m]]
        else butlast memo @ [last memo @ [m]])"

text \<open>
  Modelled from the spec: \<open>fromPlainArray(items, createNewGroup)\<close> is the unflattening
  that starts from no group.
\<close>

definition fromPlainArray :: "item list \<Rightarrow> bool \<Rightarrow> groups" where
  "fromPlainArray items createNewGroup = fromPlainLoop items createNewGroup []"

text \<open>
  Modelled from the spec: \<open>arrayMoveImmutable\<close> comes from the package \<open>array-move\<close>,
  which is not among the sources. The spec's reorder applies a stable move of one element
  from one flat index to another: the element is taken out and put back at the target
  index of what remains, at the end when the target lies beyond it; the other elements
  keep their order. A source index outside the sequence moves nothing.
\<close>

definition arrayMoveImmutable :: "'a list \<Rightarrow> nat \<Rightarrow> nat \<Rightarrow> 'a list" where
  "arrayMoveImmutable array fromIndex toIndex =
     (if fromIndex < length array
      then (let item = array ! fromIndex;
                rest = take fromIndex array @ drop (Suc fromIndex) array
            in take toIndex rest @ [item] @ drop toIndex rest)
      else array)"

subsection \<open>onSortEnd\<close>

text \<open>
  The props of \<open>UserGroups\<close> that its handlers read. \<open>items\<close> is the memoised
  \<open>toPlainArray(value)\<close>; \<open>onSortEnd\<close> passes its result to \<open>onChange\<close>.
\<close>

record props =
  "value" :: groups
  isMultipleGroups :: bool

definition items :: "props \<Rightarrow> item list" where
  "items p = toPlainArray (value p)"

definition onSortEnd :: "props \<Rightarrow> nat \<Rightarrow> nat \<Rightarrow> groups" where
  "onSortEnd p oldIndex newIndex =
     (let newPlainArray = arrayMoveImmutable (items p) oldIndex newIndex
      in fromPlainArray newPlainArray (newIndex > length (items p)))"

text \<open>
  A group list is well formed when it has no empty group except possibly the last one.
\<close>

definition wellFormed :: "groups \<Rightarrow> bool" where
  "wellFormed g = list_all (\<lambda>group. group \<noteq> []) (butlast g)"

section \<open>ScheduleOverrideForm.tsx: the group list state and the preview requests\<close>

text \<open>
  The fields of a stored shift that the form reads, and the \<open>params\<close> memo built from
  the form's state (\<open>frequency\<close> is always \<open>null\<close>). Dates are kept as the strings sent
  to the store; the time-zone conversions \<open>getUTCString\<close> and \<open>getDateTime\<close> are not
  modelled.
\<close>

record shift =
  shift_start :: string
  shift_end :: string
  rolling_users :: groups

record params = shift +
  rotation_start :: string
  frequency :: "nat option"

text \<open>
  The state of one mounted form: the four \<open>useState\<close> cells that matter here, the
  debounce timers that are armed (due time and the snapshot the armed callback sends), the
  preview requests sent and not yet resolved, and the trace of all requests sent.
\<close>

record form =
  isOpen :: bool
  shiftStart :: string
  shiftEnd :: string
  userGroups :: groups
  timers :: "(nat \<times> params) list"
  inflight :: "params list"
  requests :: "(nat \<times> params) list"

definition paramsOf :: "form \<Rightarrow> params" where
  "paramsOf st =
     \<lparr>shift_start = shiftStart st, shift_end = shiftEnd st, rolling_users = userGroups st,
      rotation_start = shiftStart st, frequency = None\<rparr>"

text \<open>
  \<open>updatePreview\<close> calls \<open>store.scheduleStore.updateRotationPreview(..., params)\<close>: a
  request for the snapshot of its closure is sent. The callback of \<open>.then\<close> is
  \<open>setIsOpen(true)\<close> and nothing else; a rejected request does not reach it.
\<close>

definition updatePreview :: "nat \<Rightarrow> params \<Rightarrow> form \<Rightarrow> form" where
  "updatePreview t p st = st\<lparr>inflight := inflight st @ [p], requests := requests st @ [(t, p)]\<rparr>"

definition resolved :: "nat \<Rightarrow> form \<Rightarrow> form" where
  "resolved h st =
     (if h < length (inflight st)
      then st\<lparr>inflight := take h (inflight st) @ drop (Suc h) (inflight st), isOpen := True\<rparr>
      else st)"

definition rejected :: "nat \<Rightarrow> form \<Rightarrow> form" where
  "rejected h st =
     (if h < length (inflight st)
      then st\<lparr>inflight := take h (inflight st) @ drop (Suc h) (inflight st)\<rparr>
      else st)"

text \<open>
  The delay of \<open>useDebouncedCallback(updatePreview, 200)\<close>. Time is counted in
  milliseconds.
\<close>

definition debounceWait :: nat where
  "debounceWait = 200"

text \<open>
  Modelled from the spec: \<open>useDebouncedCallback\<close> of \<open>utils/hooks\<close> is not among the
  sources. \<open>handleChange\<close> is the debounced \<open>updatePreview\<close>: a snapshot change
  resets the fixed delay timer, that is, whatever timer is armed is dropped and one is
  armed for the new snapshot, due \<open>debounceWait\<close> later.
\<close>

definition handleChange :: "nat \<Rightarrow> form \<Rightarrow> form" where
  "handleChange t st = st\<lparr>timers := [(t + debounceWait, paramsOf st)]\<rparr>"

text \<open>
  Modelled from the spec: when the timer elapses, exactly one request for its snapshot is
  sent. \<open>elapse t\<close> lets the time pass up to \<open>t\<close>: the timers due by then fire, in
  the order in which they were armed, each calling \<open>updatePreview\<close> at its due time;
  the others stay armed.
\<close>

definition elapse :: "nat \<Rightarrow> form \<Rightarrow> form" where
  "elapse t st =
     foldl (\<lambda>s (due, p). updatePreview due p s)
       (st\<lparr>timers := filter (\<lambda>(due, p). t < due) (timers st)\<rparr>)
       (filter (\<lambda>(due, p). due \<le> t) (timers st))"

text \<open>
  The hydrating effect \<open>if (shift) { setShiftStart(...); setShiftEnd(...);
  setUserGroups(shift.rolling_users) }\<close>.
\<close>

definition hydrate :: "shift \<Rightarrow> form \<Rightarrow> form" where
  "hydrate sh st =
     st\<lparr>shiftStart := shift_start sh, shiftEnd := shift_end sh, userGroups := rolling_users sh\<rparr>"

text \<open>
  What happens to a mounted form: a state setter is called (the date pickers,
  \<open>onChange\<close> of \<open>UserGroups\<close>), the shift arrives in the store, a request resolves or
  is rejected. Each change of state gives a new \<open>params\<close> memo, on which the effect
  \<open>useEffect(handleChange, [params])\<close> runs.
\<close>

datatype event =
    SetShiftStart string
  | SetShiftEnd string
  | SetUserGroups groups
  | ShiftLoaded shift
  | Resolve nat
  | Reject nat

fun isChange :: "event \<Rightarrow> bool" where
  "isChange (Resolve h) = False"
| "isChange (Reject h) = False"
| "isChange ev = True"

fun handle :: "event \<Rightarrow> nat \<Rightarrow> form \<Rightarrow> form" where
  "handle (SetShiftStart s) t st = handleChange t (st\<lparr>shiftStart := s\<rparr>)"
| "handle (SetShiftEnd s) t st = handleChange t (st\<lparr>shiftEnd := s\<rparr>)"
| "handle (SetUserGroups g) t st = handleChange t (st\<lparr>userGroups := g\<rparr>)"
| "handle (ShiftLoaded sh) t st = handleChange t (hydrate sh st)"
| "handle (Resolve h) t st = resolved h st"
| "handle (Reject h) t st = rejected h st"

text \<open>An event at time \<open>t\<close> is handled after the timers due by then have fired.\<close>

definition step :: "form \<Rightarrow> nat \<times> event \<Rightarrow> form" where
  "step st e = handle (snd e) (fst e) (elapse (fst e) st)"

definition run :: "(nat \<times> event) list \<Rightarrow> form \<Rightarrow> form" where
  "run evs st = foldl step st evs"

text \<open>
  Mounting at time \<open>t\<close>: \<open>useState([[]])\<close> for the group list, the two dates from
  \<open>shiftMoment\<close>, \<open>isOpen\<close> false. The mount effects see the first render's
  \<open>params\<close>: \<open>updatePreview()\<close> at once when \<open>shiftId === 'new'\<close>, then
  \<open>handleChange\<close>. When the store already holds the shift, the hydrating effect sets
  the state, and the effect on \<open>params\<close> runs again.
\<close>

definition initialForm :: "string \<Rightarrow> string \<Rightarrow> form" where
  "initialForm start0 end0 =
     \<lparr>isOpen = False, shiftStart = start0, shiftEnd = end0, userGroups = [[]],
      timers = [], inflight = [], requests = []\<rparr>"

definition mount :: "bool \<Rightarrow> shift option \<Rightarrow> nat \<Rightarrow> string \<Rightarrow> string \<Rightarrow> form" where
  "mount isNew sh t start0 end0 =
     (let st0 = initialForm start0 end0;
          st1 = (if isNew then updatePreview t (paramsOf st0) st0 else st0);
          st2 = handleChange t st1
      in case sh of None \<Rightarrow> st2 | Some s \<Rightarrow> handleChange t (hydrate s st2))"

text \<open>
  Two shapes of a sequence of event times: each one less than the debounce window after
  the one before, and each one more than the window after the one before.
\<close>

fun gapsWithin :: "nat \<Rightarrow> nat list \<Rightarrow> bool" where
  "gapsWithin w (t # u # ts) = (t \<le> u \<and> u < t + w \<and> gapsWithin w (u # ts))"
| "gapsWithin w ts = True"

fun gapsBeyond :: "nat \<Rightarrow> nat list \<Rightarrow> bool" where
  "gapsBeyond w (t # u # ts) = (t + w < u \<and> gapsBeyond w (u # ts))"
| "gapsBeyond w ts = True"

definition noTimerDue :: "nat \<Rightarrow> form \<Rightarrow> bool" where
  "noTimerDue t st = list_all (\<lambda>(due, p). t < due) (timers st)"

section \<open>Properties of the loops\<close>

lemma enumerate_filter_aux:
  "map snd (filter (\<lambda>(itemIndex, item). itemIndex \<noteq> n + j) (enumerate n xs)) = take j xs @ drop (Suc j) xs"
proof (induction xs arbitrary: n j)
  case Nil
  then show ?case by simp
next
  case (Cons x xs)
  show ?case
  proof (cases j)
    case 0
    have "filter (\<lambda>(itemIndex, item). itemIndex \<noteq> n) (enumerate (Suc n) xs) = enumerate (Suc n) xs"
      by (rule filter_True) (auto simp: in_set_enumerate_eq)
    with 0 show ?thesis by simp
  next
    case (Suc j')
    from Cons.IH [of "Suc n" j'] Suc show ?thesis by simp
  qed
qed

lemma filterIndexNot_take_drop: "filterIndexNot j xs = take j xs @ drop (Suc j) xs"
  using enumerate_filter_aux [of 0 j xs] by (simp add: filterIndexNot_def)

lemma usersLoop_eq:
  "j \<le> length users \<Longrightarrow>
   usersLoop users index j k =
     (if k < index \<and> index \<le> k + int (length users - j)
      then Inl (j + nat (index - k - 1)) else Inr (k + int (length users - j)))"
proof (induction users index j k rule: usersLoop.induct)
  case (1 users index j k)
  show ?case
  proof (cases "j < length users")
    case False
    with 1(2) have "j = length users" by simp
    then show ?thesis by (subst usersLoop.simps) simp
  next
    case True
    show ?thesis
    proof (cases "k + 1 = index")
      case True
      with \<open>j < length users\<close> show ?thesis
        by (subst usersLoop.simps) simp
    next
      case False
      with True 1(1) [of "k + 1"] have
        "usersLoop users index (j + 1) (k + 1) =
          (if k + 1 < index \<and> index \<le> k + 1 + int (length users - (j + 1))
           then Inl (j + 1 + nat (index - (k + 1) - 1))
           else Inr (k + 1 + int (length users - (j + 1))))"
        by simp
      with True False show ?thesis
        by (subst usersLoop.simps) (auto simp: Let_def nat_diff_distrib)
    qed
  qed
qed


lemma flatLength_take_Suc:
  "i < length gs \<Longrightarrow>
   flatLength (take (Suc i) gs) = flatLength (take i gs) + 1 + int (length (gs ! i))"
  by (simp add: flatLength_def take_Suc_conv_app_nth)

lemma flatLength_nonneg: "0 \<le> flatLength gs"
  unfolding flatLength_def by (induction gs) auto

lemma flatLength_take_mono:
  "i \<le> i0 \<Longrightarrow> flatLength (take i gs) \<le> flatLength (take i0 gs)"
proof -
  assume "i \<le> i0"
  then have "take i0 gs = take i gs @ take (i0 - i) (drop i gs)"
    by (metis le_add_diff_inverse take_add)
  then have "flatLength (take i0 gs) =
      flatLength (take i gs) + flatLength (take (i0 - i) (drop i gs))"
    by (simp add: flatLength_def)
  with flatLength_nonneg [of "take (i0 - i) (drop i gs)"] show ?thesis by simp
qed

lemma groupsLoop_hit:
  "i \<le> i0 \<Longrightarrow> i0 < length gs \<Longrightarrow> j0 < length (gs ! i0) \<Longrightarrow>
   k = flatLength (take i gs) - 1 \<Longrightarrow>
   groupsLoop gs (flatIndex gs i0 j0) i k =
     Some (filter (\<lambda>group. length group \<noteq> 0) (gs[i0 := filterIndexNot j0 (gs ! i0)]))"
proof (induction gs "flatIndex gs i0 j0" i k rule: groupsLoop.induct)
  case (1 gs i k)
  from 1(2,3) have i_lt: "i < length gs" by simp
  show ?case
  proof (cases "i = i0")
    case True
    with 1(4,5) have "usersLoop (gs ! i) (flatIndex gs i0 j0) 0 (k + 1) = Inl j0"
      by (simp add: usersLoop_eq flatIndex_def)
    with True i_lt show ?thesis
      by (subst groupsLoop.simps) (simp add: Let_def)
  next
    case False
    with 1(2) have lt: "Suc i \<le> i0" by simp
    from flatLength_take_mono [OF lt, of gs] flatLength_take_Suc [OF i_lt] 1(5)
    have u: "usersLoop (gs ! i) (flatIndex gs i0 j0) 0 (k + 1) =
             Inr (k + 1 + int (length (gs ! i)))"
      by (simp add: usersLoop_eq flatIndex_def)
    have k': "k + 1 + int (length (gs ! i)) = flatLength (take (i + 1) gs) - 1"
      using flatLength_take_Suc [OF i_lt] 1(5) by simp
    from 1(1) [OF i_lt refl refl u _ 1(3) 1(4) k'] lt
    have "groupsLoop gs (flatIndex gs i0 j0) (i + 1) (k + 1 + int (length (gs ! i))) =
          Some (filter (\<lambda>group. length group \<noteq> 0) (gs[i0 := filterIndexNot j0 (gs ! i0)]))"
      by simp
    with u i_lt show ?thesis
      by (subst groupsLoop.simps) (simp add: Let_def)
  qed
qed

lemma groupsLoop_miss:
  "i \<le> length gs \<Longrightarrow> k = flatLength (take i gs) - 1 \<Longrightarrow>
   index < 0 \<or> flatLength gs \<le> index \<Longrightarrow>
   groupsLoop gs index i k = None"
proof (induction gs index i k rule: groupsLoop.induct)
  case (1 gs index i k)
  show ?case
  proof (cases "i < length gs")
    case False
    then show ?thesis by (subst groupsLoop.simps) simp
  next
    case True
    from flatLength_take_mono [of "Suc i" "length gs" gs] True
    have le: "flatLength (take (Suc i) gs) \<le> flatLength gs" by simp
    from flatLength_nonneg [of "take i gs"] 1(3) have k0: "- 1 \<le> k" by simp
    from le k0 flatLength_take_Suc [OF True] 1(3,4)
    have u: "usersLoop (gs ! i) index 0 (k + 1) = Inr (k + 1 + int (length (gs ! i)))"
      by (auto simp add: usersLoop_eq)
    have k': "k + 1 + int (length (gs ! i)) = flatLength (take (i + 1) gs) - 1"
      using flatLength_take_Suc [OF True] 1(3) by simp
    from True have "i + 1 \<le> length gs" by simp
    from 1(1) [OF True refl refl u this k' 1(4)] u True show ?thesis
      by (subst groupsLoop.simps) (simp add: Let_def)
  qed
qed

lemma groupsLoop_no_empty:
  "groupsLoop gs index i k = Some r \<Longrightarrow> [] \<notin> set r"
proof (induction gs index i k rule: groupsLoop.induct)
  case (1 gs index i k)
  from 1(2) have lt: "i < length gs"
    by (subst (asm) groupsLoop.simps) (simp split: if_splits)
  show ?case
  proof (cases "usersLoop (gs ! i) index 0 (k + 1)")
    case (Inl j)
    with 1(2) lt show ?thesis
      by (subst (asm) groupsLoop.simps) (auto simp: Let_def)
  next
    case (Inr k'')
    with 1(2) lt have "groupsLoop gs index (i + 1) k'' = Some r"
      by (subst (asm) groupsLoop.simps) (simp add: Let_def)
    with 1(1) [OF lt refl refl Inr] show ?thesis by simp
  qed
qed

section \<open>Claims about handleDeleteUser and handleUserAdd\<close>

lemma delete_example_in_range:
  "handleDeleteUser [[''u1'', ''u2''], [''u3'']] 1 = Some [[''u2''], [''u3'']]"
  by code_simp

lemma delete_example_with_empty_groups:
  "handleDeleteUser [[], [''u1'', ''u2''], []] 3 = Some [[''u1'']]"
  by code_simp

text \<open>
  C3. An index outside the numbering of the current group list (negative, or at least the
  number of positions) makes \<open>handleDeleteUser\<close> return without calling \<open>onChange\<close>:
  the loops run to the end, nothing is thrown and the group list stays as it is.
\<close>

theorem handleDeleteUser_out_of_range:
  "index < 0 \<or> flatLength gs \<le> index \<Longrightarrow> handleDeleteUser gs index = None"
  unfolding handleDeleteUser_def
  by (rule groupsLoop_miss) (simp_all add: flatLength_def)

theorem handleDeleteUser_out_of_range_witness:
  "flatLength [[''u1'', ''u2''], [''u3'']] = 5
   \<and> handleDeleteUser [[''u1'', ''u2''], [''u3'']] 5 = None
   \<and> handleDeleteUser [[''u1'', ''u2''], [''u3'']] (- 1) = None"
  using handleDeleteUser_out_of_range [of 5 "[[''u1'', ''u2''], [''u3'']]"]
    handleDeleteUser_out_of_range [of "- 1" "[[''u1'', ''u2''], [''u3'']]"]
  by (simp add: flatLength_def)

text \<open>
  C6. At the position of user \<open>j\<close> of group \<open>i\<close>, \<open>handleDeleteUser\<close> calls
  \<open>onChange\<close> with the group list in which exactly that user is taken out of group
  \<open>i\<close> and the groups of length zero are then filtered out. From
  \<open>[[u1, u2], [u3]]\<close> at the position of \<open>u1\<close> the result is \<open>[[u2], [u3]]\<close>.
\<close>

theorem handleDeleteUser_removes_member:
  "i < length gs \<Longrightarrow> j < length (gs ! i) \<Longrightarrow>
   handleDeleteUser gs (flatIndex gs i j) =
     Some (filter (\<lambda>group. group \<noteq> [])
            (gs[i := take j (gs ! i) @ drop (Suc j) (gs ! i)]))"
  unfolding handleDeleteUser_def
  by (subst groupsLoop_hit [where ?i0.0 = i and ?j0.0 = j])
     (simp_all add: flatLength_def filterIndexNot_take_drop)

theorem handleDeleteUser_removes_member_witness:
  "(0::nat) < length [[''u1'', ''u2''], [''u3'']]
   \<and> (0::nat) < length ([[''u1'', ''u2''], [''u3'']] ! 0)
   \<and> flatIndex [[''u1'', ''u2''], [''u3'']] 0 0 = 1
   \<and> handleDeleteUser [[''u1'', ''u2''], [''u3'']] 1 = Some [[''u2''], [''u3'']]"
  using handleDeleteUser_removes_member [of 0 "[[''u1'', ''u2''], [''u3'']]" 0]
  by (simp add: flatIndex_def flatLength_def)

text \<open>
  C10. Whenever \<open>handleDeleteUser\<close> calls \<open>onChange\<close>, the group list it passes has no
  empty group: the final filter drops every group of length zero, also one that was empty
  before and was not the group the user was taken from.
\<close>

theorem handleDeleteUser_no_empty_group:
  "handleDeleteUser gs index = Some r \<Longrightarrow> [] \<notin> set r"
  unfolding handleDeleteUser_def by (rule groupsLoop_no_empty)

theorem handleDeleteUser_no_empty_group_witness:
  "handleDeleteUser [[], [''u1'', ''u2''], []] 3 = Some [[''u1'']]
   \<and> [] \<notin> set [[''u1'']]"
  using handleDeleteUser_no_empty_group [OF delete_example_with_empty_groups]
    delete_example_with_empty_groups
  by simp

text \<open>
  C5. \<open>handleUserAdd\<close> with a missing or empty key returns without calling
  \<open>onChange\<close>; with any other key it calls \<open>onChange\<close> with the key appended to the
  last group, a first group being created when there is none. It has no failing path.
  On the empty group list, adding \<open>u1\<close> gives the single group \<open>[u1]\<close>.
\<close>

theorem handleUserAdd_appends:
  "handleUserAdd gs None = None
   \<and> handleUserAdd gs (Some []) = None
   \<and> (pk \<noteq> [] \<longrightarrow>
        handleUserAdd gs (Some pk) =
          Some (if gs = [] then [[pk]] else butlast gs @ [last gs @ [pk]]))
   \<and> handleUserAdd [] (Some ''u1'') = Some [[''u1'']]"
proof -
  have "gs \<noteq> [] \<Longrightarrow>
        gs[length gs - 1 := (gs ! (length gs - 1)) @ [pk]] =
        butlast gs @ [last gs @ [pk]]"
    by (cases gs rule: rev_cases) (simp_all add: nth_append)
  then show ?thesis
    by (simp add: handleUserAdd_def falsy_def Let_def)
qed

theorem handleUserAdd_appends_witness:
  "''u2'' \<noteq> []
   \<and> handleUserAdd [[''u1'']] (Some ''u2'') = Some [[''u1'', ''u2'']]
   \<and> handleUserAdd [[''u0''], [''u1'']] (Some ''u2'') = Some [[''u0''], [''u1'', ''u2'']]"
  using handleUserAdd_appends [of "[[''u1'']]" "''u2''"]
    handleUserAdd_appends [of "[[''u0''], [''u1'']]" "''u2''"]
  by simp

section \<open>The flat sequence and the loops' numbering agree\<close>

text \<open>
  The positions that \<open>handleDeleteUser\<close> counts are the positions of \<open>toPlainArray\<close>:
  the flat sequence has \<open>flatLength\<close> items, and \<open>flatIndex gs i j\<close> is where user \<open>j\<close>
  of group \<open>i\<close> sits in it.
\<close>

lemma length_toPlainFrom: "int (length (toPlainFrom n g)) = flatLength g"
  by (induction g arbitrary: n) (simp_all add: flatLength_def)

lemma length_toPlainArray: "int (length (toPlainArray g)) = flatLength g"
  by (simp add: toPlainArray_def length_toPlainFrom)

lemma toPlainFrom_flatIndex:
  "i < length g \<Longrightarrow> j < length (g ! i) \<Longrightarrow>
   toPlainFrom n g ! nat (flatIndex g i j) = MemberItem (g ! i ! j) (n + i)"
proof (induction g arbitrary: n i)
  case Nil
  then show ?case by simp
next
  case (Cons users rest)
  show ?case
  proof (cases i)
    case 0
    with Cons.prems show ?thesis
      by (simp add: flatIndex_def flatLength_def nat_add_distrib nth_append)
  next
    case (Suc i')
    with Cons.prems have i': "i' < length rest" and j: "j < length (rest ! i')" by simp_all
    have nn: "0 \<le> flatLength (take i' rest)" by (rule flatLength_nonneg)
    have "nat (flatIndex (users # rest) i j) = Suc (length users + nat (flatIndex rest i' j))"
      using nn by (simp add: Suc flatIndex_def flatLength_def nat_add_distrib)
    with Cons.IH [OF i' j, of "Suc n"] Suc show ?thesis
      by (simp add: nth_append)
  qed
qed

lemma toPlainArray_flatIndex:
  "i < length g \<Longrightarrow> j < length (g ! i) \<Longrightarrow>
   toPlainArray g ! nat (flatIndex g i j) = MemberItem (g ! i ! j) i"
  using toPlainFrom_flatIndex [of i g j 0] by (simp add: toPlainArray_def)

section \<open>Flattening and unflattening\<close>

lemma fromPlainLoop_toPlainFrom:
  "fromPlainLoop (toPlainFrom n g) False memo = memo @ g"
proof (induction g arbitrary: n memo)
  case Nil
  then show ?case by simp
next
  case (Cons users rest)
  have m: "fromPlainLoop (map (\<lambda>m. MemberItem m n) us @ tl0) False (memo0 @ [acc]) =
        fromPlainLoop tl0 False (memo0 @ [acc @ us])" for us tl0 memo0 acc
    by (induction us arbitrary: acc) simp_all
  from m [of users "toPlainFrom (Suc n) rest" memo "[]"] Cons.IH [of "Suc n" "memo @ [users]"]
  show ?case by simp
qed

lemma fromPlainArray_toPlainArray: "fromPlainArray (toPlainArray g) False = g"
  by (simp add: fromPlainArray_def toPlainArray_def fromPlainLoop_toPlainFrom)

text \<open>
  C1. For a well-formed group list (no empty group except possibly the last one),
  unflattening its flattening gives the group list back. The helpers do not take the
  multi-group mode: \<open>items\<close> is \<open>toPlainArray(value)\<close> whatever \<open>isMultipleGroups\<close> is,
  so the law is the same in both modes. The second argument of \<open>fromPlainArray\<close> is
  false, as it is in \<open>onSortEnd\<close> whenever nothing is moved past the end.
\<close>

theorem fromPlainArray_toPlainArray_roundtrip:
  "wellFormed (value p) \<Longrightarrow> fromPlainArray (items p) False = value p"
  by (simp add: items_def fromPlainArray_toPlainArray)

theorem fromPlainArray_toPlainArray_roundtrip_witness:
  "wellFormed [[''u1'', ''u2''], [''u3''], []]
   \<and> fromPlainArray (items \<lparr>value = [[''u1'', ''u2''], [''u3''], []], isMultipleGroups = True\<rparr>) False
       = [[''u1'', ''u2''], [''u3''], []]
   \<and> fromPlainArray (items \<lparr>value = [[''u1'', ''u2''], [''u3''], []], isMultipleGroups = False\<rparr>) False
       = [[''u1'', ''u2''], [''u3''], []]"
  using fromPlainArray_toPlainArray_roundtrip [of "\<lparr>value = [[''u1'', ''u2''], [''u3''], []], isMultipleGroups = True\<rparr>"]
    fromPlainArray_toPlainArray_roundtrip [of "\<lparr>value = [[''u1'', ''u2''], [''u3''], []], isMultipleGroups = False\<rparr>"]
  by (simp add: wellFormed_def)

section \<open>Reordering past the end\<close>



lemma items_example:
  "items \<lparr>value = [[''u1'', ''u2'']], isMultipleGroups = b\<rparr> =
     [SeparatorItem 0, MemberItem ''u1'' 0, MemberItem ''u2'' 0]"
  by (simp add: items_def toPlainArray_def)

text \<open>
  The test is strict: a target index equal to the length of the flat sequence, one past
  the last item, still appends to the last group. The "Add user group +" row, shown in
  multi-group mode only, has index \<open>items.length + 1\<close>.
\<close>

lemma onSortEnd_at_length_example:
  "onSortEnd \<lparr>value = [[''u1'', ''u2'']], isMultipleGroups = True\<rparr> 1 3 = [[''u2'', ''u1'']]"
  by (simp add: onSortEnd_def items_example arrayMoveImmutable_def fromPlainArray_def Let_def)

lemma onSortEnd_ignores_mode:
  "onSortEnd (p\<lparr>isMultipleGroups := b\<rparr>) oldIndex newIndex = onSortEnd p oldIndex newIndex"
  by (simp add: onSortEnd_def items_def)




section \<open>The debounced preview requests\<close>

lemma elapse_not_due: "noTimerDue t st \<Longrightarrow> elapse t st = st"
proof -
  assume "noTimerDue t st"
  then have a: "\<forall>x\<in>set (timers st). case x of (due, p) \<Rightarrow> t < due"
    by (simp add: noTimerDue_def list_all_iff)
  then have "filter (\<lambda>(due, p). t < due) (timers st) = timers st"
    by (intro filter_True) auto
  moreover from a have "filter (\<lambda>(due, p). due \<le> t) (timers st) = []"
    by (intro filter_False) auto
  ultimately show ?thesis by (simp add: elapse_def)
qed

lemma elapse_due_single:
  "timers st = [(due, p)] \<Longrightarrow> due \<le> t \<Longrightarrow>
   elapse t st = updatePreview due p (st\<lparr>timers := []\<rparr>)"
  by (simp add: elapse_def)

lemma paramsOf_handleChange: "paramsOf (handleChange t st) = paramsOf st"
  by (simp add: paramsOf_def handleChange_def)

lemma handle_change:
  "isChange ev \<Longrightarrow>
   timers (handle ev t st) = [(t + debounceWait, paramsOf (handle ev t st))]
   \<and> requests (handle ev t st) = requests st
   \<and> inflight (handle ev t st) = inflight st"
  by (cases ev) (simp_all add: handleChange_def paramsOf_def hydrate_def)

lemma run_Cons: "run (e # evs) st = run evs (step st e)"
  by (simp add: run_def)

lemma run_Nil: "run [] st = st"
  by (simp add: run_def)

lemma run_within:
  "list_all (\<lambda>e. isChange (snd e)) evs \<Longrightarrow>
   timers st = [(t + debounceWait, paramsOf st)] \<Longrightarrow>
   gapsWithin debounceWait (t # map fst evs) \<Longrightarrow>
   timers (run evs st) = [(last (t # map fst evs) + debounceWait, paramsOf (run evs st))]
   \<and> requests (run evs st) = requests st"
proof (induction evs arbitrary: st t)
  case Nil
  then show ?case by (simp add: run_Nil)
next
  case (Cons e evs)
  obtain u ev where e: "e = (u, ev)" by (cases e)
  from Cons.prems e have ch: "isChange ev" and rest: "list_all (\<lambda>e. isChange (snd e)) evs"
    and u: "u < t + debounceWait" and gaps: "gapsWithin debounceWait (u # map fst evs)"
    by simp_all
  from Cons.prems(2) u have "noTimerDue u st" by (simp add: noTimerDue_def)
  then have st': "step st e = handle ev u st" by (simp add: step_def e elapse_not_due)
  from handle_change [OF ch, of u st] st'
  have t': "timers (step st e) = [(u + debounceWait, paramsOf (step st e))]"
    and r': "requests (step st e) = requests st" by simp_all
  from Cons.IH [OF rest t' gaps] r' show ?case
    by (simp add: run_Cons e)
qed

lemma run_beyond:
  "list_all (\<lambda>e. isChange (snd e)) evs \<Longrightarrow>
   timers st = [(t + debounceWait, paramsOf st)] \<Longrightarrow>
   gapsBeyond debounceWait (t # map fst evs) \<Longrightarrow>
   timers (run evs st) = [(last (t # map fst evs) + debounceWait, paramsOf (run evs st))]
   \<and> map fst (requests (run evs st)) =
       map fst (requests st) @ map (\<lambda>u. u + debounceWait) (butlast (t # map fst evs))"
proof (induction evs arbitrary: st t)
  case Nil
  then show ?case by (simp add: run_Nil)
next
  case (Cons e evs)
  obtain u ev where e: "e = (u, ev)" by (cases e)
  from Cons.prems e have ch: "isChange ev" and rest: "list_all (\<lambda>e. isChange (snd e)) evs"
    and u: "t + debounceWait < u" and gaps: "gapsBeyond debounceWait (u # map fst evs)"
    by simp_all
  let ?fired = "updatePreview (t + debounceWait) (paramsOf st) (st\<lparr>timers := []\<rparr>)"
  from Cons.prems(2) u have "elapse u st = ?fired"
    by (simp add: elapse_due_single)
  then have st': "step st e = handle ev u ?fired" by (simp add: step_def e)
  from handle_change [OF ch, of u ?fired] st'
  have t': "timers (step st e) = [(u + debounceWait, paramsOf (step st e))]"
    and r': "requests (step st e) = requests st @ [(t + debounceWait, paramsOf st)]"
    by (simp_all add: updatePreview_def)
  from Cons.IH [OF rest t' gaps] r' show ?case
    by (simp add: run_Cons e)
qed

text \<open>
  The spec's scenario: changes at 0, 50 and 250 ms give two requests, at 250 and 450 ms.
\<close>

lemma debounce_scenario:
  "map fst (requests (elapse 1000 (run
       [(0, SetUserGroups [[''u1'']]), (50, SetUserGroups [[''u1'', ''u2'']]), (250, SetShiftEnd ''e'')]
       (initialForm ''a'' ''b'')))) = [250, 450]"
  by (simp add: run_def step_def elapse_def handleChange_def updatePreview_def initialForm_def
        debounceWait_def paramsOf_def)

text \<open>
  C4. Take a non-empty sequence of changes of the snapshot, starting when no timer is due,
  and look at the requests sent once the window after the last change has elapsed. When
  every change comes less than \<open>debounceWait\<close> after the one before, none is sent during
  the burst and exactly one after it, at the last change plus \<open>debounceWait\<close>, for the
  latest snapshot. When every change comes more than \<open>debounceWait\<close> after the one
  before, exactly as many requests are sent as there are changes, each \<open>debounceWait\<close>
  after its change.
\<close>

theorem debounce_coalescing:
  assumes nonempty: "evs \<noteq> []"
    and changes: "list_all (\<lambda>e. isChange (snd e)) evs"
    and quiet: "noTimerDue (fst (hd evs)) st"
    and late: "fst (last evs) + debounceWait \<le> T"
  shows "(gapsWithin debounceWait (map fst evs) \<longrightarrow>
            requests (run evs st) = requests st
            \<and> requests (elapse T (run evs st)) =
                requests st @ [(fst (last evs) + debounceWait, paramsOf (run evs st))])
         \<and> (gapsBeyond debounceWait (map fst evs) \<longrightarrow>
            length (requests (elapse T (run evs st))) = length (requests st) + length evs
            \<and> map fst (requests (elapse T (run evs st))) =
                map fst (requests st) @ map (\<lambda>e. fst e + debounceWait) evs)"
proof -
  from nonempty obtain u ev rest where evs: "evs = (u, ev) # rest"
    by (cases evs) auto
  let ?st1 = "step st (u, ev)"
  let ?fin = "run evs st"
  from changes evs have ch: "isChange ev" and chs: "list_all (\<lambda>e. isChange (snd e)) rest"
    by simp_all
  from quiet evs have st1: "?st1 = handle ev u st"
    by (simp add: step_def elapse_not_due)
  from handle_change [OF ch, of u st] st1
  have t1: "timers ?st1 = [(u + debounceWait, paramsOf ?st1)]"
    and r1: "requests ?st1 = requests st" by simp_all
  have fin: "?fin = run rest ?st1" by (simp add: evs run_Cons)
  have lst: "last (u # map fst rest) = fst (last evs)"
    by (simp add: evs last_map)
  have fire: "requests (elapse T ?fin) = requests ?fin @ [(fst (last evs) + debounceWait, paramsOf ?fin)]"
    if "timers ?fin = [(fst (last evs) + debounceWait, paramsOf ?fin)]"
    using that late by (simp add: elapse_due_single updatePreview_def)
  have within: "requests ?fin = requests st
      \<and> requests (elapse T ?fin) = requests st @ [(fst (last evs) + debounceWait, paramsOf ?fin)]"
    if "gapsWithin debounceWait (map fst evs)"
  proof -
    from that have "gapsWithin debounceWait (u # map fst rest)" by (simp add: evs)
    from run_within [OF chs t1 this] have "timers ?fin = [(fst (last evs) + debounceWait, paramsOf ?fin)]"
      and "requests ?fin = requests st"
      by (simp_all only: fin lst r1)
    with fire show ?thesis by simp
  qed
  have beyond: "length (requests (elapse T ?fin)) = length (requests st) + length evs
      \<and> map fst (requests (elapse T ?fin)) =
          map fst (requests st) @ map (\<lambda>e. fst e + debounceWait) evs"
    if "gapsBeyond debounceWait (map fst evs)"
  proof -
    from that have "gapsBeyond debounceWait (u # map fst rest)" by (simp add: evs)
    from run_beyond [OF chs t1 this]
    have tf: "timers ?fin = [(fst (last evs) + debounceWait, paramsOf ?fin)]"
      and rf: "map fst (requests ?fin) =
          map fst (requests st) @ map (\<lambda>u. u + debounceWait) (butlast (u # map fst rest))"
      by (simp_all only: fin lst r1)
    have "map (\<lambda>u. u + debounceWait) (butlast (u # map fst rest)) @ [fst (last evs) + debounceWait]
        = map (\<lambda>u. u + debounceWait) (butlast (u # map fst rest) @ [last (u # map fst rest)])"
      by (simp only: lst map_append list.map)
    also have "\<dots> = map (\<lambda>u. u + debounceWait) (u # map fst rest)"
      by (simp only: append_butlast_last_id list.distinct not_False_eq_True)
    also have "\<dots> = map (\<lambda>e. fst e + debounceWait) evs"
      by (simp add: evs comp_def)
    finally have snoc: "map (\<lambda>u. u + debounceWait) (butlast (u # map fst rest))
          @ [fst (last evs) + debounceWait] = map (\<lambda>e. fst e + debounceWait) evs" .
    from fire [OF tf] have "map fst (requests (elapse T ?fin)) =
        map fst (requests ?fin) @ [fst (last evs) + debounceWait]"
      by simp
    with rf snoc have m: "map fst (requests (elapse T ?fin)) =
        map fst (requests st) @ map (\<lambda>e. fst e + debounceWait) evs"
      by simp
    have "length (requests (elapse T ?fin)) = length (map fst (requests (elapse T ?fin)))"
      by simp
    also have "\<dots> = length (requests st) + length evs"
      by (simp only: m length_append length_map)
    finally show ?thesis using m by simp
  qed
  from within beyond show ?thesis by blast
qed

theorem debounce_coalescing_witness:
  "gapsWithin debounceWait (map fst
       [(0, SetUserGroups [[''u1'']]), (50, SetUserGroups [[''u1'', ''u2'']]), (120, SetShiftEnd ''e'')])
   \<and> length (requests (elapse 1000 (run
       [(0, SetUserGroups [[''u1'']]), (50, SetUserGroups [[''u1'', ''u2'']]), (120, SetShiftEnd ''e'')]
       (initialForm ''a'' ''b'')))) = 1
   \<and> gapsBeyond debounceWait (map fst
       [(0, SetUserGroups [[''u1'']]), (250, SetUserGroups [[''u1'', ''u2'']]), (500, SetShiftEnd ''e'')])
   \<and> length (requests (elapse 1000 (run
       [(0, SetUserGroups [[''u1'']]), (250, SetUserGroups [[''u1'', ''u2'']]), (500, SetShiftEnd ''e'')]
       (initialForm ''a'' ''b'')))) = 3"
  using debounce_coalescing [of
      "[(0, SetUserGroups [[''u1'']]), (50, SetUserGroups [[''u1'', ''u2'']]), (120, SetShiftEnd ''e'')]"
      "initialForm ''a'' ''b''" 1000]
    debounce_coalescing [of
      "[(0, SetUserGroups [[''u1'']]), (250, SetUserGroups [[''u1'', ''u2'']]), (500, SetShiftEnd ''e'')]"
      "initialForm ''a'' ''b''" 1000]
  by (simp add: noTimerDue_def initialForm_def debounceWait_def)

section \<open>Results arriving for an older snapshot\<close>

lemma stale_example:
  "run [(50, SetUserGroups [[''u1'']])] (mount True None 0 ''a'' ''b'') =
     \<lparr>isOpen = False, shiftStart = ''a'', shiftEnd = ''b'', userGroups = [[''u1'']],
      timers = [(250, \<lparr>shift_start = ''a'', shift_end = ''b'', rolling_users = [[''u1'']],
                         rotation_start = ''a'', frequency = None\<rparr>)],
      inflight = [\<lparr>shift_start = ''a'', shift_end = ''b'', rolling_users = [[]],
                    rotation_start = ''a'', frequency = None\<rparr>],
      requests = [(0, \<lparr>shift_start = ''a'', shift_end = ''b'', rolling_users = [[]],
                         rotation_start = ''a'', frequency = None\<rparr>)]\<rparr>"
  by (simp add: run_def step_def elapse_def handleChange_def updatePreview_def initialForm_def
        debounceWait_def paramsOf_def mount_def Let_def)

text \<open>
  C2, as the code has it. The callback of \<open>updatePreview\<close> is \<open>setIsOpen(true)\<close>: a
  request that resolves sets the flag whichever snapshot it was sent for, and the current
  snapshot is neither read nor changed by it. Nothing is compared and nothing discarded.
\<close>

theorem resolve_sets_isOpen:
  "h < length (inflight (elapse t st)) \<Longrightarrow>
   isOpen (step st (t, Resolve h))
   \<and> paramsOf (step st (t, Resolve h)) = paramsOf (elapse t st)"
  by (simp add: step_def resolved_def paramsOf_def)

theorem resolve_sets_isOpen_witness:
  "(0::nat) < length (inflight (elapse 60 (run [(50, SetUserGroups [[''u1'']])] (mount True None 0 ''a'' ''b''))))
   \<and> rolling_users (inflight (elapse 60 (run [(50, SetUserGroups [[''u1'']])] (mount True None 0 ''a'' ''b''))) ! 0)
       = [[]]
   \<and> rolling_users (paramsOf (step (run [(50, SetUserGroups [[''u1'']])] (mount True None 0 ''a'' ''b'')) (60, Resolve 0)))
       = [[''u1'']]
   \<and> isOpen (step (run [(50, SetUserGroups [[''u1'']])] (mount True None 0 ''a'' ''b'')) (60, Resolve 0))"
  using resolve_sets_isOpen [of 0 60 "run [(50, SetUserGroups [[''u1'']])] (mount True None 0 ''a'' ''b'')"]
  by (simp add: stale_example elapse_def paramsOf_def)

text \<open>
  The claim as stated fails: the request sent on mounting a new override is for the
  snapshot with the group list \<open>[[]]\<close>; the group list is then changed, and the first
  request resolves: the flag goes from false to true on a result for a snapshot that is
  no longer the current one.
\<close>

theorem stale_result_counterexample:
  "inflight (run [(50, SetUserGroups [[''u1'']])] (mount True None 0 ''a'' ''b'')) ! 0
     \<noteq> paramsOf (run [(50, SetUserGroups [[''u1'']])] (mount True None 0 ''a'' ''b''))
   \<and> \<not> isOpen (run [(50, SetUserGroups [[''u1'']])] (mount True None 0 ''a'' ''b''))
   \<and> isOpen (run [(50, SetUserGroups [[''u1'']]), (60, Resolve 0)] (mount True None 0 ''a'' ''b''))"
proof -
  have "run [(50, SetUserGroups [[''u1'']]), (60, Resolve 0)] (mount True None 0 ''a'' ''b'') =
        step (run [(50, SetUserGroups [[''u1'']])] (mount True None 0 ''a'' ''b'')) (60, Resolve 0)"
    by (simp add: run_def)
  then show ?thesis
    by (simp add: stale_example step_def elapse_def resolved_def paramsOf_def)
qed

section \<open>Timers pending and requests in flight\<close>

lemma timers_foldl_updatePreview:
  "timers (foldl (\<lambda>s (due, p). updatePreview due p s) st xs) = timers st"
  by (induction xs arbitrary: st) (simp_all add: updatePreview_def split_def)

lemma length_timers_elapse: "length (timers (elapse t st)) \<le> length (timers st)"
  by (simp add: elapse_def timers_foldl_updatePreview)

lemma length_timers_handle:
  "length (timers st) \<le> 1 \<Longrightarrow> length (timers (handle ev t st)) \<le> 1"
  by (cases ev) (simp_all add: handleChange_def resolved_def rejected_def)

lemma length_timers_step:
  "length (timers st) \<le> 1 \<Longrightarrow> length (timers (step st e)) \<le> 1"
  unfolding step_def
  by (rule length_timers_handle) (rule order_trans [OF length_timers_elapse])

lemma length_timers_run:
  "length (timers st) \<le> 1 \<Longrightarrow> length (timers (run evs st)) \<le> 1"
proof (induction evs arbitrary: st)
  case Nil
  then show ?case by (simp add: run_Nil)
next
  case (Cons e evs)
  from Cons.prems have "length (timers (step st e)) \<le> 1" by (rule length_timers_step)
  then have "length (timers (run evs (step st e))) \<le> 1" by (rule Cons.IH)
  then show ?case by (simp only: run_Cons)
qed

lemma length_timers_mount: "length (timers (mount isNew sh t start0 end0)) \<le> 1"
  by (simp add: mount_def Let_def handleChange_def split: option.split)

text \<open>
  C8, as the code has it. In every state reached from a mount, at most one debounce
  timer is armed. The requests in flight are not so bounded: \<open>updatePreview\<close> sends a
  request without looking at the ones not yet resolved.
\<close>

theorem one_pending_timer:
  "length (timers (run evs (mount isNew sh t start0 end0))) \<le> 1"
  by (rule length_timers_run) (rule length_timers_mount)

text \<open>
  The claim as stated fails: a new override sends a request on mount and, when the timer
  armed on mount elapses, a second one while the first may still be unresolved.
\<close>

theorem two_requests_in_flight_counterexample:
  "\<not> length (inflight (run [(250, SetUserGroups [[''u1'']])] (mount True None 0 ''a'' ''b''))) \<le> 1"
  by (simp add: run_def step_def elapse_def handleChange_def updatePreview_def initialForm_def
        debounceWait_def paramsOf_def mount_def Let_def)

section \<open>The group list when the form opens\<close>



end
